theory Spec2Isabelle
  imports Main "HOL-Library.Word"
begin

unbundle bit_operations_syntax

section \<open>The ADC task scheduler of adctask.cpp\<close>

text \<open>
  The firmware shares one analog-to-digital converter between sampling tasks. Timer 1
  fires an interrupt at a fixed rate; its service routine reads the finished conversion,
  switches the channel when another one is requested, starts the next conversion and
  hands the sample to the task registered in \<open>current_adc_task\<close>.

  The model is a state record holding the file's static variables, the hardware
  registers the code reads and writes, the task objects (addressed by their pointer), a
  log of the hardware accesses and calls in program order, and what the converter holds
  of the multiplexer register. C++ field names end in an
  underscore, which a HOL name cannot; the model writes a prime instead
  (\<open>filter_\<close> is \<open>filter'\<close>).
\<close>

type_synonym u8 = "8 word"
type_synonym u16 = "16 word"
type_synonym u32 = "32 word"

text \<open>A task pointer and a filter pointer; a nullable pointer is an option.\<close>

type_synonym task_ptr = nat
type_synonym filter_ptr = nat

subsection \<open>Constants\<close>

text \<open>adctask.h, lines 7, 10 and 15.\<close>

definition k_arduino_frequency :: u32 where
  "k_arduino_frequency = 16000000"

definition k_timer_1_frequency_h :: u32 where
  "k_timer_1_frequency_h = 5000"

definition k_adc_sample_rate :: u32 where
  "k_adc_sample_rate = k_timer_1_frequency_h"

text \<open>adctask.cpp, lines 12, 15, 18 and 22. The implementation file declares a second
  \<open>k_timer_1_frequency\<close>; the two are told apart by a suffix.\<close>

definition k_timer_1_comapre_to :: int where
  "k_timer_1_comapre_to = 7"

definition k_timer_1_frequency_cpp :: u32 where
  "k_timer_1_frequency_cpp = 31250"

definition k_adc_prescaler :: u8 where
  "k_adc_prescaler = 32"

definition k_adc_ignore_count :: u8 where
  "k_adc_ignore_count = 4"

text \<open>The timer prescaler of 64 that \<open>initialise_timer_and_adc\<close> selects with the
  bits CS11 and CS10 (the comment at lines 9 and 10 of adctask.cpp).\<close>

definition timer_1_prescaler :: nat where
  "timer_1_prescaler = 64"

text \<open>Bit numbers of the ATmega328P registers, from the avr-libc device header the
  Arduino core supplies (a platform header, not a file of the repository).\<close>

definition ADSC :: nat where "ADSC = 6"
definition ADPS0 :: nat where "ADPS0 = 0"
definition ADPS1 :: nat where "ADPS1 = 1"
definition ADPS2 :: nat where "ADPS2 = 2"
definition WGM12 :: nat where "WGM12 = 3"
definition CS10 :: nat where "CS10 = 0"
definition CS11 :: nat where "CS11 = 1"
definition OCIE1A :: nat where "OCIE1A = 1"

subsection \<open>Register macros\<close>

text \<open>\<open>_BV(bit)\<close> is \<open>1 << bit\<close>; \<open>sbi\<close> and \<open>cbi\<close> are the macros at lines 4
  and 5; \<open>bit_is_set(sfr, bit)\<close> is \<open>sfr & _BV(bit)\<close> read as a truth value.\<close>

definition BV :: "nat \<Rightarrow> u8" where
  "BV b = push_bit b 1"

definition sbi :: "u8 \<Rightarrow> nat \<Rightarrow> u8" where
  "sbi sfr b = sfr OR BV b"

definition cbi :: "u8 \<Rightarrow> nat \<Rightarrow> u8" where
  "cbi sfr b = sfr AND NOT (BV b)"

definition bit_is_set :: "u8 \<Rightarrow> nat \<Rightarrow> bool" where
  "bit_is_set sfr b = (sfr AND BV b \<noteq> 0)"

subsection \<open>State\<close>

text \<open>The fields of an \<open>adctask\<close> object that adctask.cpp uses.\<close>

record adctask =
  filter' :: "filter_ptr option"
  adc_pin' :: u8
  ignore_count' :: u8

text \<open>What the program does to the outside, in program order: reading the sample
  register, writing the multiplexer register, starting a conversion, the interrupt
  routine's call of a task's \<open>service\<close>, and the call of a filter's
  \<open>process_sample\<close>.\<close>

datatype action =
  AdcRead u8
  | MuxWrite u8
  | AdcTrigger
  | Service task_ptr u8
  | FilterSample filter_ptr u8

record adc_state =
  current_adc_pin :: u8
  next_adc_pin :: u8
  current_adc_task :: "task_ptr option"
  adc_tasks_initialised :: bool
  adc_prescale :: u8
  ADCSRA :: u8
  ADMUX :: u8
  ADCH :: u8
  TCCR1A :: u8
  TCCR1B :: u8
  TIMSK1 :: u8
  TCNT1 :: u16
  OCR1A :: u16
  SREG_I :: bool
  tasks :: "task_ptr \<Rightarrow> adctask"
  trace :: "action list"
  conv_mux :: "u8 option"
  sample_mux :: "u8 option"

text \<open>The last two fields are not program variables. They record what the converter
  itself holds: \<open>conv_mux\<close> is the content the multiplexer register had when the
  conversion in flight was started, and \<open>sample_mux\<close> is the register content under
  which the value now in the result register was converted. Both are \<open>None\<close> until a
  conversion has been started or finished; no code reads them.\<close>

text \<open>The static initialisers of lines 25 to 34 and 99, with the registers at their
  reset value of zero, interrupts enabled (the Arduino core enables them before
  \<open>setup\<close>) and the task objects given.\<close>

definition power_on :: "(task_ptr \<Rightarrow> adctask) \<Rightarrow> adc_state" where
  "power_on tk =
     \<lparr>current_adc_pin = 255, next_adc_pin = 0, current_adc_task = None,
      adc_tasks_initialised = False, adc_prescale = 0,
      ADCSRA = 0, ADMUX = 0, ADCH = 0, TCCR1A = 0, TCCR1B = 0, TIMSK1 = 0,
      TCNT1 = 0, OCR1A = 0, SREG_I = True, tasks = tk, trace = [],
      conv_mux = None, sample_mux = None\<rparr>"

subsection \<open>The converter\<close>

definition cli :: "adc_state \<Rightarrow> adc_state" where
  "cli s = s\<lparr>SREG_I := False\<rparr>"

definition sei :: "adc_state \<Rightarrow> adc_state" where
  "sei s = s\<lparr>SREG_I := True\<rparr>"

text \<open>\<open>analog_trigger\<close>, line 41. Setting ADSC starts a conversion, and the converter
  takes the channel from the multiplexer register at that moment; setting ADSC while a
  conversion is running starts nothing.\<close>

definition analog_trigger :: "adc_state \<Rightarrow> adc_state" where
  "analog_trigger s =
     s\<lparr>ADCSRA := sbi (ADCSRA s) ADSC, trace := trace s @ [AdcTrigger],
       conv_mux := (if bit_is_set (ADCSRA s) ADSC then conv_mux s else Some (ADMUX s))\<rparr>"

definition analog_ready :: "adc_state \<Rightarrow> bool" where
  "analog_ready s = (\<not> bit_is_set (ADCSRA s) ADSC)"

definition analog_read :: "adc_state \<Rightarrow> u8 \<times> adc_state" where
  "analog_read s = (ADCH s, s\<lparr>trace := trace s @ [AdcRead (ADCH s)]\<rparr>)"

text \<open>The assignment to ADMUX at line 79.\<close>

definition write_ADMUX :: "u8 \<Rightarrow> adc_state \<Rightarrow> adc_state" where
  "write_ADMUX v s = s\<lparr>ADMUX := v, trace := trace s @ [MuxWrite v]\<rparr>"

text \<open>The converter finishing a conversion with result \<open>v\<close>: the hardware clears
  ADSC and latches the result, which was converted under the register content taken
  when the conversion started. This is the environment's step, not code of the
  repository; a conversion that was never started finishes nothing.\<close>

definition conversion_done :: "u8 \<Rightarrow> adc_state \<Rightarrow> adc_state" where
  "conversion_done v s =
     (if bit_is_set (ADCSRA s) ADSC
      then s\<lparr>ADCSRA := cbi (ADCSRA s) ADSC, ADCH := v, sample_mux := conv_mux s\<rparr>
      else s)"

subsection \<open>The task's service method\<close>

text \<open>Modelled from the spec: filter.h is not among the sources. The filter collaborator
  "consumes one raw 8-bit sample at a time via a single method"; the call is recorded
  in the log, and nothing else is assumed of it.\<close>

definition process_sample :: "filter_ptr \<Rightarrow> u8 \<Rightarrow> adc_state \<Rightarrow> adc_state" where
  "process_sample f sample s = s\<lparr>trace := trace s @ [FilterSample f sample]\<rparr>"

text \<open>\<open>adctask::service\<close>, lines 242 to 248.\<close>

definition service :: "task_ptr \<Rightarrow> u8 \<Rightarrow> adc_state \<Rightarrow> adc_state" where
  "service this sample s =
     (if ignore_count' (tasks s this) \<noteq> 0 then
        s\<lparr>tasks := (tasks s)(this := (tasks s this)\<lparr>ignore_count' := ignore_count' (tasks s this) - 1\<rparr>)\<rparr>
      else
        (case filter' (tasks s this) of
           Some f \<Rightarrow> process_sample f sample s
         | None \<Rightarrow> s))"

subsection \<open>The timer interrupt\<close>

text \<open>\<open>ISR(TIMER1_COMPA_vect)\<close>, lines 60 to 88. The call of the task's
  \<open>service\<close> is logged where it is made.\<close>

definition TIMER1_COMPA_vect :: "adc_state \<Rightarrow> adc_state" where
  "TIMER1_COMPA_vect s =
     (if \<not> analog_ready s then s
      else
        let (sample, s1) = analog_read s;
            s2 = (if next_adc_pin s1 \<noteq> current_adc_pin s1 then
                    (write_ADMUX (push_bit 6 1 OR push_bit 5 1 OR (next_adc_pin s1 AND 0x07)) s1)
                      \<lparr>current_adc_pin := next_adc_pin s1\<rparr>
                  else s1);
            s3 = analog_trigger s2
        in (case current_adc_task s3 of
              Some t \<Rightarrow> service t sample (s3\<lparr>trace := trace s3 @ [Service t sample]\<rparr>)
            | None \<Rightarrow> s3))"

subsection \<open>Initialisation\<close>

text \<open>\<open>init_adc_clock_prescaler\<close>, lines 97 to 155. The static \<open>adc_prescale\<close>
  is compared and never assigned.\<close>

definition init_adc_clock_prescaler :: "u8 \<Rightarrow> adc_state \<Rightarrow> adc_state" where
  "init_adc_clock_prescaler v s =
     (if v = adc_prescale s then s
      else if v = 2 then s\<lparr>ADCSRA := cbi (cbi (sbi (ADCSRA s) ADPS0) ADPS1) ADPS2\<rparr>
      else if v = 4 then s\<lparr>ADCSRA := cbi (sbi (cbi (ADCSRA s) ADPS0) ADPS1) ADPS2\<rparr>
      else if v = 8 then s\<lparr>ADCSRA := cbi (sbi (sbi (ADCSRA s) ADPS0) ADPS1) ADPS2\<rparr>
      else if v = 16 then s\<lparr>ADCSRA := sbi (cbi (cbi (ADCSRA s) ADPS0) ADPS1) ADPS2\<rparr>
      else if v = 32 then s\<lparr>ADCSRA := sbi (cbi (sbi (ADCSRA s) ADPS0) ADPS1) ADPS2\<rparr>
      else if v = 64 then s\<lparr>ADCSRA := sbi (sbi (cbi (ADCSRA s) ADPS0) ADPS1) ADPS2\<rparr>
      else s\<lparr>ADCSRA := sbi (sbi (sbi (ADCSRA s) ADPS0) ADPS1) ADPS2\<rparr>)"

text \<open>\<open>initialise_timer_and_adc\<close>, lines 162 to 187.\<close>

definition initialise_timer_and_adc :: "adc_state \<Rightarrow> adc_state" where
  "initialise_timer_and_adc s =
     (let s1 = s\<lparr>TCCR1A := 0, TCCR1B := 0, TCNT1 := 0\<rparr>;
          s2 = s1\<lparr>OCR1A := word_of_int k_timer_1_comapre_to\<rparr>;
          s3 = s2\<lparr>TCCR1B := TCCR1B s2 OR push_bit WGM12 1\<rparr>;
          s4 = s3\<lparr>TCCR1B := TCCR1B s3 OR (push_bit CS11 1 OR push_bit CS10 1)\<rparr>;
          s5 = s4\<lparr>TIMSK1 := TIMSK1 s4 OR push_bit OCIE1A 1\<rparr>
      in init_adc_clock_prescaler k_adc_prescaler s5)"

text \<open>\<open>init_adc_tasks\<close>, lines 189 to 200.\<close>

definition init_adc_tasks :: "adc_state \<Rightarrow> adc_state" where
  "init_adc_tasks s =
     (if adc_tasks_initialised s then s
      else (analog_trigger (initialise_timer_and_adc s))\<lparr>adc_tasks_initialised := True\<rparr>)"

subsection \<open>Starting and stopping a task\<close>

text \<open>\<open>adctask::start_task\<close>, lines 211 to 231.\<close>

definition start_task :: "task_ptr \<Rightarrow> adc_state \<Rightarrow> adc_state" where
  "start_task this s =
     (let s1 = cli s;
          s2 = init_adc_tasks s1;
          s3 = s2\<lparr>next_adc_pin := adc_pin' (tasks s2 this)\<rparr>;
          s4 = s3\<lparr>tasks := (tasks s3)(this := (tasks s3 this)\<lparr>ignore_count' := k_adc_ignore_count\<rparr>)\<rparr>;
          s5 = (if current_adc_task s4 \<noteq> Some this then s4\<lparr>current_adc_task := Some this\<rparr> else s4);
          s6 = analog_trigger s5
      in sei s6)"

text \<open>\<open>adctask::stop_task\<close>, lines 233 to 240.\<close>

definition stop_task :: "task_ptr \<Rightarrow> adc_state \<Rightarrow> adc_state" where
  "stop_task this s =
     (if current_adc_task s = Some this then sei ((cli s)\<lparr>current_adc_task := None\<rparr>)
      else s)"

text \<open>\<open>adctask::adctask\<close>, line 202: the constructor initialises the filter pointer and
  the pin. The countdown is not initialised; its first content is a parameter.\<close>

definition adctask_new :: "filter_ptr option \<Rightarrow> u8 \<Rightarrow> u8 \<Rightarrow> adctask" where
  "adctask_new sample_filter adc_pin junk =
     \<lparr>filter' = sample_filter, adc_pin' = adc_pin, ignore_count' = junk\<rparr>"

subsection \<open>Runs of the system\<close>

text \<open>What can happen to the scheduler: the main program starts or stops a task, the
  timer fires, or the converter finishes a conversion. The interrupt routine runs only
  while interrupts are enabled, and the critical sections of \<open>start_task\<close> and
  \<open>stop_task\<close> make each of them one step.\<close>

datatype event = Start task_ptr | Stop task_ptr | Tick | Done u8

fun step :: "event \<Rightarrow> adc_state \<Rightarrow> adc_state" where
  "step (Start t) s = start_task t s"
| "step (Stop t) s = stop_task t s"
| "step Tick s = (if SREG_I s then TIMER1_COMPA_vect s else s)"
| "step (Done v) s = conversion_done v s"

definition run :: "event list \<Rightarrow> adc_state \<Rightarrow> adc_state" where
  "run evs s = fold step evs s"

text \<open>A task's \<open>service\<close> called with each sample of a list in turn.\<close>

definition deliver :: "task_ptr \<Rightarrow> u8 list \<Rightarrow> adc_state \<Rightarrow> adc_state" where
  "deliver t xs s = fold (service t) xs s"

text \<open>The tasks whose \<open>service\<close> a log shows called, in order.\<close>

fun serviced :: "action list \<Rightarrow> task_ptr list" where
  "serviced [] = []"
| "serviced (Service t x # as) = t # serviced as"
| "serviced (a # as) = serviced as"

text \<open>What one call of \<open>service\<close> on a task object adds to the log.\<close>

definition service_trace :: "adctask \<Rightarrow> u8 \<Rightarrow> action list" where
  "service_trace tk x =
     (if ignore_count' tk \<noteq> 0 then []
      else case filter' tk of Some f \<Rightarrow> [FilterSample f x] | None \<Rightarrow> [])"

text \<open>The multiplexer register holds the configuration of the recorded current channel.\<close>

definition mux_in_step :: "adc_state \<Rightarrow> bool" where
  "mux_in_step s = (ADMUX s = push_bit 6 1 OR push_bit 5 1 OR (current_adc_pin s AND 0x07))"

text \<open>The converter and the multiplexer register agree: a conversion in flight was
  started under the present register content, and when none is in flight and a task is
  registered, the value in the result register was converted under it.\<close>

definition converter_in_step :: "adc_state \<Rightarrow> bool" where
  "converter_in_step s =
     (if bit_is_set (ADCSRA s) ADSC then conv_mux s = Some (ADMUX s)
      else current_adc_task s = None \<or> sample_mux s = Some (ADMUX s))"

section \<open>The wind meter of davis6410.h\<close>

datatype davis6410state = idle | new_sample | sampling_speed | sampling_direction | send_frame

text \<open>The data members of class \<open>davis6410\<close>, lines 98 to 125. A function pointer and
  the context pointer are addresses, null being \<open>None\<close>; \<open>unsigned long\<close> has 32
  bits on the AVR.\<close>

record davis6410 =
  wind_speed_pin' :: int
  wind_vane_pin' :: int
  sample_period' :: u32
  initialised' :: bool
  state' :: davis6410state
  sample_start_time' :: u32
  sample_pulse_count' :: u8
  sample_direction' :: int
  sample_fn' :: "nat option"
  context' :: "nat option"

text \<open>The wind meter with its two collaborators: the pulse counter that the reed
  switch's interrupt increments, and the millisecond clock.\<close>

record wind_world =
  meter :: davis6410
  pulse_counter :: u8
  millis :: u32

text \<open>Modelled from the spec: davis6410.cpp is not among the sources, only the
  declaration of \<open>start_sample\<close> at line 68 of the header. Section 4.4: "if another
  sample is already in progress, fail (return false) without disturbing the in-progress
  one; otherwise record the callback/context, reset the pulse counter, record the
  current timestamp as the window start, transition to counting-speed [...] and return
  true."\<close>

definition start_sample :: "nat option \<Rightarrow> nat option \<Rightarrow> wind_world \<Rightarrow> bool \<times> wind_world" where
  "start_sample fn ctx w =
     (if state' (meter w) \<noteq> idle then (False, w)
      else
        (True,
         w\<lparr>meter := (meter w)\<lparr>sample_fn' := fn, context' := ctx,
                               sample_start_time' := millis w, state' := sampling_speed\<rparr>,
           pulse_counter := 0\<rparr>))"

section \<open>Example states\<close>

text \<open>Two task objects: task 1 samples pin 1 through filter 7, every other task
  samples pin 2 and has no filter.\<close>

definition demo_tasks :: "task_ptr \<Rightarrow> adctask" where
  "demo_tasks p = adctask_new (if p = 1 then Some 7 else None) (if p = 1 then 1 else 2) 0"

text \<open>Task 1 is started after power-on and receives one sample.\<close>

definition demo_state :: adc_state where
  "demo_state = run [Start 1, Done 5, Tick] (power_on demo_tasks)"

definition demo_events :: "event list" where
  "demo_events = [Done 9, Tick, Stop 1, Done 3, Tick]"

text \<open>Task objects built with pin 255, the value \<open>current_adc_pin\<close> starts with.\<close>

definition pin255_tasks :: "task_ptr \<Rightarrow> adctask" where
  "pin255_tasks p = adctask_new None 255 0"

definition pin255_state :: adc_state where
  "pin255_state = run [Start 0, Done 17, Tick] (power_on pin255_tasks)"

text \<open>Task objects built with pin 10, a pin number above 7.\<close>

definition pin10_tasks :: "task_ptr \<Rightarrow> adctask" where
  "pin10_tasks p = adctask_new None 10 0"

text \<open>A wind meter in the middle of its speed window, with three pulses counted.\<close>

definition busy_world :: wind_world where
  "busy_world =
     \<lparr>meter = \<lparr>wind_speed_pin' = 2, wind_vane_pin' = 0, sample_period' = 2250,
                initialised' = True, state' = sampling_speed, sample_start_time' = 1000,
                sample_pulse_count' = 0, sample_direction' = 0,
                sample_fn' = Some 1, context' = None\<rparr>,
      pulse_counter = 3, millis = 2000\<rparr>"

definition idle_world :: wind_world where
  "idle_world = busy_world\<lparr>meter := (meter busy_world)\<lparr>state' := idle\<rparr>\<rparr>"

section \<open>Facts about the scheduler\<close>

subsection \<open>What each operation leaves alone\<close>

lemma serviced_append: "serviced (xs @ ys) = serviced xs @ serviced ys"
  by (induction xs rule: serviced.induct) simp_all

lemma serviced_service_trace: "serviced (service_trace tk x) = []"
  by (simp add: service_trace_def split: option.split)

lemma service_fields:
  "current_adc_task (service t x s) = current_adc_task s"
  "current_adc_pin (service t x s) = current_adc_pin s"
  "next_adc_pin (service t x s) = next_adc_pin s"
  "adc_tasks_initialised (service t x s) = adc_tasks_initialised s"
  "ADMUX (service t x s) = ADMUX s"
  "ADCSRA (service t x s) = ADCSRA s"
  "SREG_I (service t x s) = SREG_I s"
  by (simp_all add: service_def process_sample_def split: option.split)

lemma service_trace_eq: "trace (service t x s) = trace s @ service_trace (tasks s t) x"
  by (simp add: service_def process_sample_def service_trace_def split: option.split)

lemma service_tasks:
  "tasks (service t x s) =
     (tasks s)(t := (tasks s t)\<lparr>ignore_count' :=
        (if ignore_count' (tasks s t) \<noteq> 0 then ignore_count' (tasks s t) - 1 else 0)\<rparr>)"
  by (auto simp: service_def process_sample_def split: option.split)

lemma init_adc_tasks_fields:
  "current_adc_task (init_adc_tasks s) = current_adc_task s"
  "current_adc_pin (init_adc_tasks s) = current_adc_pin s"
  "next_adc_pin (init_adc_tasks s) = next_adc_pin s"
  "tasks (init_adc_tasks s) = tasks s"
  "ADMUX (init_adc_tasks s) = ADMUX s"
  "serviced (trace (init_adc_tasks s)) = serviced (trace s)"
  by (simp_all add: init_adc_tasks_def initialise_timer_and_adc_def init_adc_clock_prescaler_def
      analog_trigger_def Let_def serviced_append)

lemma start_task_fields:
  "current_adc_task (start_task t s) = Some t"
  "current_adc_pin (start_task t s) = current_adc_pin s"
  "next_adc_pin (start_task t s) = adc_pin' (tasks s t)"
  "ADMUX (start_task t s) = ADMUX s"
  "SREG_I (start_task t s)"
  "adc_tasks_initialised (start_task t s)"
  "tasks (start_task t s) = (tasks s)(t := (tasks s t)\<lparr>ignore_count' := k_adc_ignore_count\<rparr>)"
  "serviced (trace (start_task t s)) = serviced (trace s)"
  by (simp_all add: start_task_def cli_def sei_def analog_trigger_def Let_def init_adc_tasks_fields
      serviced_append) (simp_all add: init_adc_tasks_def analog_trigger_def)

lemma stop_task_fields:
  "current_adc_task (stop_task t s) = (if current_adc_task s = Some t then None else current_adc_task s)"
  "trace (stop_task t s) = trace s"
  "tasks (stop_task t s) = tasks s"
  "current_adc_pin (stop_task t s) = current_adc_pin s"
  "next_adc_pin (stop_task t s) = next_adc_pin s"
  "adc_tasks_initialised (stop_task t s) = adc_tasks_initialised s"
  "ADMUX (stop_task t s) = ADMUX s"
  by (simp_all add: stop_task_def cli_def sei_def)

lemma conversion_done_fields:
  "current_adc_task (conversion_done v s) = current_adc_task s"
  "trace (conversion_done v s) = trace s"
  "tasks (conversion_done v s) = tasks s"
  "current_adc_pin (conversion_done v s) = current_adc_pin s"
  "next_adc_pin (conversion_done v s) = next_adc_pin s"
  "ADMUX (conversion_done v s) = ADMUX s"
  by (simp_all add: conversion_done_def)

subsection \<open>The interrupt routine\<close>

lemma isr_current_adc_task: "current_adc_task (TIMER1_COMPA_vect s) = current_adc_task s"
  by (simp add: TIMER1_COMPA_vect_def analog_read_def write_ADMUX_def analog_trigger_def
      service_fields Let_def split: option.split)

lemma isr_unready: "\<not> analog_ready s \<Longrightarrow> TIMER1_COMPA_vect s = s"
  by (simp add: TIMER1_COMPA_vect_def)

lemma isr_trace:
  "analog_ready s \<Longrightarrow>
   trace (TIMER1_COMPA_vect s) =
     trace s @ [AdcRead (ADCH s)]
       @ (if next_adc_pin s \<noteq> current_adc_pin s
          then [MuxWrite (push_bit 6 1 OR push_bit 5 1 OR (next_adc_pin s AND 7))] else [])
       @ [AdcTrigger]
       @ (case current_adc_task s of
            Some t \<Rightarrow> Service t (ADCH s) # service_trace (tasks s t) (ADCH s)
          | None \<Rightarrow> [])"
  by (simp add: TIMER1_COMPA_vect_def analog_read_def write_ADMUX_def analog_trigger_def
      service_trace_eq Let_def split: option.split)

lemma isr_current_adc_pin:
  "analog_ready s \<Longrightarrow> current_adc_pin (TIMER1_COMPA_vect s) = next_adc_pin s"
  by (simp add: TIMER1_COMPA_vect_def analog_read_def write_ADMUX_def analog_trigger_def
      service_fields Let_def split: option.split)

lemma isr_ADCH: "ADCH (TIMER1_COMPA_vect s) = ADCH s"
  by (simp add: TIMER1_COMPA_vect_def analog_read_def write_ADMUX_def analog_trigger_def
      service_def process_sample_def Let_def split: option.split)

lemma isr_next_adc_pin: "next_adc_pin (TIMER1_COMPA_vect s) = next_adc_pin s"
  by (simp add: TIMER1_COMPA_vect_def analog_read_def write_ADMUX_def analog_trigger_def
      service_fields Let_def split: option.split)

lemma isr_ADMUX:
  "analog_ready s \<Longrightarrow>
   ADMUX (TIMER1_COMPA_vect s) =
     (if next_adc_pin s \<noteq> current_adc_pin s
      then push_bit 6 1 OR push_bit 5 1 OR (next_adc_pin s AND 7) else ADMUX s)"
  by (simp add: TIMER1_COMPA_vect_def analog_read_def write_ADMUX_def analog_trigger_def
      service_fields Let_def split: option.split)

lemma isr_serviced_idle:
  "current_adc_task s = None \<Longrightarrow> serviced (trace (TIMER1_COMPA_vect s)) = serviced (trace s)"
  by (cases "analog_ready s") (simp_all add: isr_trace isr_unready serviced_append)

lemma isr_serviced_active:
  "analog_ready s \<Longrightarrow> current_adc_task s = Some t \<Longrightarrow>
     serviced (trace (TIMER1_COMPA_vect s)) = serviced (trace s) @ [t]"
  by (simp add: isr_trace serviced_append serviced_service_trace)

lemma tick_serviced:
  "serviced (trace (step Tick s)) = serviced (trace s)
   \<or> (\<exists>t. current_adc_task s = Some t \<and> serviced (trace (step Tick s)) = serviced (trace s) @ [t])"
proof (cases "SREG_I s \<and> analog_ready s")
  case False
  then show ?thesis by (auto simp: isr_unready)
next
  case True
  show ?thesis
  proof (cases "current_adc_task s")
    case None
    then show ?thesis by (simp add: isr_serviced_idle)
  next
    case (Some t)
    with True show ?thesis by (simp add: isr_serviced_active)
  qed
qed

subsection \<open>A displaced task stays displaced\<close>

lemma step_keeps_displaced:
  assumes "current_adc_task s \<noteq> Some a" and "e \<noteq> Start a"
  shows "current_adc_task (step e s) \<noteq> Some a
       \<and> count_list (serviced (trace (step e s))) a = count_list (serviced (trace s)) a"
proof (cases e)
  case (Start t)
  with assms show ?thesis by (simp add: start_task_fields)
next
  case (Stop t)
  with assms show ?thesis by (simp add: stop_task_fields)
next
  case Tick
  have cur: "current_adc_task (step Tick s) = current_adc_task s"
    by (simp add: isr_current_adc_task)
  from tick_serviced [of s] assms(1)
  have "count_list (serviced (trace (step Tick s))) a = count_list (serviced (trace s)) a"
    by (elim disjE exE conjE) simp_all
  with cur assms(1) Tick show ?thesis by simp
next
  case (Done v)
  with assms show ?thesis by (simp add: conversion_done_fields)
qed

lemma run_keeps_displaced:
  "current_adc_task s \<noteq> Some a \<Longrightarrow> Start a \<notin> set evs \<Longrightarrow>
     current_adc_task (run evs s) \<noteq> Some a
   \<and> count_list (serviced (trace (run evs s))) a = count_list (serviced (trace s)) a"
proof (induction evs arbitrary: s)
  case Nil
  then show ?case by (simp add: run_def)
next
  case (Cons e evs)
  from Cons.prems have e: "e \<noteq> Start a" and rest: "Start a \<notin> set evs" by auto
  from step_keeps_displaced [OF Cons.prems(1) e]
  have st: "current_adc_task (step e s) \<noteq> Some a"
    and cnt: "count_list (serviced (trace (step e s))) a = count_list (serviced (trace s)) a"
    by simp_all
  from Cons.IH [OF st rest] cnt show ?case by (simp add: run_def)
qed

subsection \<open>Samples delivered to one task\<close>

lemma deliver_Cons: "deliver t (x # xs) s = deliver t xs (service t x s)"
  by (simp add: deliver_def)

lemma deliver_trace:
  "trace (deliver t xs s) =
     trace s @ (case filter' (tasks s t) of
                  Some f \<Rightarrow> map (FilterSample f) (drop (unat (ignore_count' (tasks s t))) xs)
                | None \<Rightarrow> [])"
proof (induction xs arbitrary: s)
  case Nil
  show ?case by (simp add: deliver_def split: option.split)
next
  case (Cons x xs)
  show ?case
  proof (cases "ignore_count' (tasks s t) = 0")
    case True
    then show ?thesis
      by (simp add: deliver_Cons Cons.IH service_trace_eq service_tasks service_trace_def
          split: option.split)
  next
    case False
    then have pos: "0 < unat (ignore_count' (tasks s t))"
      by (simp add: unat_gt_0)
    have dec: "unat (ignore_count' (tasks s t) - 1) = unat (ignore_count' (tasks s t)) - 1"
      using False by (rule unat_minus_one)
    from pos have "drop (unat (ignore_count' (tasks s t))) (x # xs)
        = drop (unat (ignore_count' (tasks s t)) - 1) xs"
      by (cases "unat (ignore_count' (tasks s t))") simp_all
    with False dec show ?thesis
      by (simp add: deliver_Cons Cons.IH service_trace_eq service_tasks service_trace_def
          split: option.split)
  qed
qed

lemma deliver_countdown:
  "unat (ignore_count' (tasks (deliver t xs s) t)) = unat (ignore_count' (tasks s t)) - length xs"
proof (induction xs arbitrary: s)
  case Nil
  show ?case by (simp add: deliver_def)
next
  case (Cons x xs)
  show ?case
  proof (cases "ignore_count' (tasks s t) = 0")
    case True
    then show ?thesis by (simp add: deliver_Cons Cons.IH service_tasks)
  next
    case False
    have "unat (ignore_count' (tasks s t) - 1) = unat (ignore_count' (tasks s t)) - 1"
      using False by (rule unat_minus_one)
    with False show ?thesis by (simp add: deliver_Cons Cons.IH service_tasks)
  qed
qed

subsection \<open>The filter pointer of a task never changes\<close>

lemma isr_tasks_filter: "filter' (tasks (TIMER1_COMPA_vect s) t) = filter' (tasks s t)"
  by (simp add: TIMER1_COMPA_vect_def analog_read_def write_ADMUX_def analog_trigger_def
      service_tasks Let_def split: option.split)

lemma step_tasks_filter: "filter' (tasks (step e s) t) = filter' (tasks s t)"
  by (cases e) (simp_all add: start_task_fields stop_task_fields conversion_done_fields isr_tasks_filter)

lemma run_tasks_filter: "filter' (tasks (run evs s) t) = filter' (tasks s t)"
proof (induction evs arbitrary: s)
  case Nil
  show ?case by (simp add: run_def)
next
  case (Cons e evs)
  have "run (e # evs) s = run evs (step e s)" by (simp add: run_def)
  with Cons.IH [of "step e s"] show ?case by (simp add: step_tasks_filter)
qed

subsection \<open>The conversion flag and the multiplexer register\<close>

lemma mux_numerals:
  "push_bit 6 (1::u8) = 2 ^ 6" "push_bit 5 (1::u8) = 2 ^ 5" "(7::u8) = mask 3"
  by (simp_all add: mask_eq_exp_minus_1)

lemma ADSC_set_after_or: "(x OR push_bit 6 1) AND push_bit 6 (1::u8) \<noteq> 0"
proof
  assume "(x OR push_bit 6 1) AND push_bit 6 (1::u8) = 0"
  then have "bit ((x OR push_bit 6 1) AND push_bit 6 (1::u8)) 6 = bit (0::u8) 6"
    by (simp only:)
  then show False
    unfolding mux_numerals bit_and_iff bit_or_iff bit_exp_iff by simp
qed

lemma ADSC_clear_after_and: "(x AND NOT (push_bit 6 1)) AND push_bit 6 (1::u8) = 0"
  unfolding mux_numerals bit_eq_iff bit_and_iff bit_not_iff bit_exp_iff by auto

lemma bit_is_set_sbi_ADSC: "bit_is_set (sbi x ADSC) ADSC"
  unfolding bit_is_set_def sbi_def BV_def ADSC_def by (rule ADSC_set_after_or)

lemma bit_is_set_cbi_ADSC: "\<not> bit_is_set (cbi x ADSC) ADSC"
  unfolding bit_is_set_def cbi_def BV_def ADSC_def by (simp only: ADSC_clear_after_and)

lemma start_task_busy: "\<not> analog_ready (start_task t s)"
  by (simp add: start_task_def analog_ready_def Let_def sei_def analog_trigger_def
      bit_is_set_sbi_ADSC)

lemma conversion_done_ready: "analog_ready (conversion_done v s)"
  by (simp add: conversion_done_def analog_ready_def bit_is_set_cbi_ADSC)

lemma isr_busy: "analog_ready s \<Longrightarrow> \<not> analog_ready (TIMER1_COMPA_vect s)"
  by (simp add: TIMER1_COMPA_vect_def analog_read_def write_ADMUX_def analog_trigger_def
      analog_ready_def service_fields bit_is_set_sbi_ADSC Let_def split: option.split)

lemma mux_value_masked:
  "(push_bit 6 1 OR push_bit 5 1 OR (p AND 7)) AND (7::u8) = p AND mask 3"
proof (rule bit_eqI)
  fix n
  show "bit ((push_bit 6 1 OR push_bit 5 1 OR (p AND 7)) AND (7::u8)) n = bit (p AND mask 3) n"
    unfolding mux_numerals bit_and_iff bit_or_iff bit_exp_iff bit_mask_iff by auto
qed

lemma mux_value_low_bits:
  "unat ((push_bit 6 1 OR push_bit 5 1 OR (p AND 7)) AND (7::u8)) = unat p mod 8"
proof -
  have "unat (p AND mask 3) = unat (take_bit 3 p)"
    by (simp add: take_bit_eq_mask)
  also have "\<dots> = take_bit 3 (unat p)"
    by (simp add: unsigned_take_bit_eq)
  also have "\<dots> = unat p mod 8"
    by (simp add: take_bit_eq_mod)
  finally show ?thesis by (simp only: mux_value_masked)
qed

lemma mux_value_bits:
  "bit (push_bit 6 1 OR push_bit 5 1 OR (p AND (7::u8))) n = (n = 6 \<or> n = 5 \<or> (n < 3 \<and> bit p n))"
  unfolding mux_numerals bit_and_iff bit_or_iff bit_exp_iff bit_mask_iff by auto

lemma isr_mux_in_step:
  assumes "analog_ready s" and "next_adc_pin s \<noteq> current_adc_pin s \<or> mux_in_step s"
  shows "mux_in_step (TIMER1_COMPA_vect s)"
proof (cases "next_adc_pin s = current_adc_pin s")
  case True
  with assms show ?thesis
    by (simp add: mux_in_step_def isr_ADMUX isr_current_adc_pin)
next
  case False
  with assms(1) show ?thesis
    by (simp add: mux_in_step_def isr_ADMUX isr_current_adc_pin)
qed

lemma step_mux_in_step: "mux_in_step s \<Longrightarrow> mux_in_step (step e s)"
proof (cases e)
  case (Start t)
  assume "mux_in_step s"
  with Start show ?thesis by (simp add: mux_in_step_def start_task_fields)
next
  case (Stop t)
  assume "mux_in_step s"
  with Stop show ?thesis by (simp add: mux_in_step_def stop_task_fields)
next
  case Tick
  assume inv: "mux_in_step s"
  show ?thesis
  proof (cases "SREG_I s \<and> analog_ready s")
    case True
    with inv Tick show ?thesis by (simp add: isr_mux_in_step)
  next
    case False
    with inv Tick show ?thesis by (auto simp: isr_unready)
  qed
next
  case (Done v)
  assume "mux_in_step s"
  with Done show ?thesis by (simp add: mux_in_step_def conversion_done_fields)
qed

text \<open>A task is started, its first conversion finishes and the timer fires.\<close>

lemma first_tick_state:
  "run [Start t, Done v, Tick] s = TIMER1_COMPA_vect (conversion_done v (start_task t s))"
  by (simp add: run_def conversion_done_def start_task_fields)


subsection \<open>The converter follows the multiplexer register\<close>

lemma bit_is_set_iff_bit: "b < 8 \<Longrightarrow> bit_is_set x b = bit x b"
proof -
  assume b: "b < 8"
  have "(x AND push_bit b 1 = 0) = (\<not> bit x b)"
  proof
    assume "x AND push_bit b 1 = 0"
    then have "bit (x AND push_bit b 1) b = bit (0::u8) b" by (simp only:)
    with b show "\<not> bit x b" by (simp add: bit_and_iff bit_exp_iff)
  next
    assume nb: "\<not> bit x b"
    show "x AND push_bit b 1 = 0"
    proof (rule bit_eqI)
      fix n
      from nb show "bit (x AND push_bit b 1) n = bit (0::u8) n"
        by (auto simp add: bit_and_iff bit_exp_iff)
    qed
  qed
  then show ?thesis by (auto simp add: bit_is_set_def BV_def)
qed

lemma bit6_after_sbi: "b \<noteq> 6 \<Longrightarrow> bit_is_set (sbi x b) 6 = bit_is_set x 6"
  by (auto simp add: bit_is_set_iff_bit sbi_def BV_def bit_or_iff bit_exp_iff)

lemma bit6_after_cbi: "b \<noteq> 6 \<Longrightarrow> bit_is_set (cbi x b) 6 = bit_is_set x 6"
  by (auto simp add: bit_is_set_iff_bit cbi_def BV_def bit_and_iff bit_not_iff bit_exp_iff)

lemma prescaler_keeps_ADSC:
  "bit_is_set (ADCSRA (init_adc_clock_prescaler v s)) ADSC = bit_is_set (ADCSRA s) ADSC"
  by (simp add: init_adc_clock_prescaler_def bit6_after_sbi bit6_after_cbi
      ADPS0_def ADPS1_def ADPS2_def ADSC_def)

lemma initialise_keeps:
  "bit_is_set (ADCSRA (initialise_timer_and_adc s)) ADSC = bit_is_set (ADCSRA s) ADSC"
  "ADMUX (initialise_timer_and_adc s) = ADMUX s"
  "conv_mux (initialise_timer_and_adc s) = conv_mux s"
  "sample_mux (initialise_timer_and_adc s) = sample_mux s"
  by (simp_all add: initialise_timer_and_adc_def Let_def prescaler_keeps_ADSC)
    (simp_all add: init_adc_clock_prescaler_def)

lemma start_task_conv_mux:
  "conv_mux (start_task t s) = (if bit_is_set (ADCSRA s) ADSC then conv_mux s else Some (ADMUX s))"
  by (simp add: start_task_def init_adc_tasks_def analog_trigger_def cli_def sei_def Let_def
      initialise_keeps bit_is_set_sbi_ADSC)

lemma start_task_sample_mux: "sample_mux (start_task t s) = sample_mux s"
  by (simp add: start_task_def init_adc_tasks_def analog_trigger_def cli_def sei_def Let_def
      initialise_keeps)

lemma isr_conv_mux:
  "analog_ready s \<Longrightarrow> conv_mux (TIMER1_COMPA_vect s) = Some (ADMUX (TIMER1_COMPA_vect s))"
  by (simp add: TIMER1_COMPA_vect_def analog_read_def write_ADMUX_def analog_trigger_def
      analog_ready_def service_def process_sample_def Let_def split: option.split)

lemma isr_sample_mux: "sample_mux (TIMER1_COMPA_vect s) = sample_mux s"
  by (simp add: TIMER1_COMPA_vect_def analog_read_def write_ADMUX_def analog_trigger_def
      service_def process_sample_def Let_def split: option.split)

lemma step_converter_in_step: "converter_in_step s \<Longrightarrow> converter_in_step (step e s)"
proof (cases e)
  case (Start t)
  assume inv: "converter_in_step s"
  have busy: "bit_is_set (ADCSRA (start_task t s)) ADSC"
    using start_task_busy [of t s] by (simp add: analog_ready_def)
  from inv busy Start show ?thesis
    by (simp add: converter_in_step_def start_task_conv_mux start_task_fields split: if_splits)
next
  case (Stop t)
  assume "converter_in_step s"
  with Stop show ?thesis
    by (auto simp add: converter_in_step_def stop_task_def cli_def sei_def)
next
  case Tick
  assume inv: "converter_in_step s"
  show ?thesis
  proof (cases "SREG_I s \<and> analog_ready s")
    case True
    then have rdy: "analog_ready s" by simp
    from isr_busy [OF rdy] have "bit_is_set (ADCSRA (TIMER1_COMPA_vect s)) ADSC"
      by (simp add: analog_ready_def)
    with True Tick isr_conv_mux [OF rdy] show ?thesis
      by (simp add: converter_in_step_def)
  next
    case False
    with inv Tick show ?thesis by (auto simp: isr_unready)
  qed
next
  case (Done v)
  assume "converter_in_step s"
  with Done show ?thesis
    by (auto simp add: converter_in_step_def conversion_done_def bit_is_set_cbi_ADSC)
qed

lemma power_on_converter_in_step: "converter_in_step (power_on tk)"
  by (simp add: converter_in_step_def power_on_def bit_is_set_def)

lemma run_converter_in_step: "converter_in_step s \<Longrightarrow> converter_in_step (run evs s)"
proof (induction evs arbitrary: s)
  case Nil
  then show ?case by (simp add: run_def)
next
  case (Cons e evs)
  have "run (e # evs) s = run evs (step e s)" by (simp add: run_def)
  with Cons.IH [OF step_converter_in_step [OF Cons.prems]] show ?case by simp
qed

lemma step_ADMUX_frame:
  assumes changed: "ADMUX (step e s) \<noteq> ADMUX s"
  shows "e = Tick \<and> SREG_I s \<and> analog_ready s \<and> next_adc_pin s \<noteq> current_adc_pin s
      \<and> ADMUX (step e s) = push_bit 6 1 OR push_bit 5 1 OR (next_adc_pin s AND 7)"
proof (cases e)
  case (Start t)
  with changed show ?thesis by (simp add: start_task_fields)
next
  case (Stop t)
  with changed show ?thesis by (simp add: stop_task_fields)
next
  case Tick
  with changed have irq: "SREG_I s"
    by (cases "SREG_I s") simp_all
  with changed Tick have rdy: "analog_ready s"
    by (cases "analog_ready s") (simp_all add: isr_unready)
  from irq rdy Tick changed show ?thesis
    by (auto simp: isr_ADMUX split: if_splits)
next
  case (Done v)
  with changed show ?thesis by (simp add: conversion_done_fields)
qed

lemma step_sample_mux_frame:
  assumes changed: "sample_mux (step e s) \<noteq> sample_mux s"
  shows "\<exists>v. e = Done v"
proof (cases e)
  case (Start t)
  with changed show ?thesis by (simp add: start_task_sample_mux)
next
  case (Stop t)
  with changed show ?thesis by (simp add: stop_task_def cli_def sei_def split: if_splits)
next
  case Tick
  with changed show ?thesis by (simp add: isr_sample_mux split: if_splits)
next
  case (Done v)
  then show ?thesis by simp
qed

section \<open>The claims\<close>

text \<open>
  C1. At most one sampling task is the registered consumer at any time: after any run
  of starts, stops, ticks and finished conversions, a tick calls \<open>service\<close> at most once,
  and only on the task in \<open>current_adc_task\<close>. Starting task \<open>b\<close> installs \<open>b\<close>
  whatever was registered before; a different task \<open>a\<close> is then not registered and its
  count of \<open>service\<close> calls stays what it was through every later run that does not
  start \<open>a\<close> again.
\<close>

theorem one_active_task:
  "length (serviced (trace (step Tick (run evs s)))) \<le> Suc (length (serviced (trace (run evs s))))
   \<and> set (serviced (trace (step Tick (run evs s)))) \<subseteq>
       set (serviced (trace (run evs s))) \<union> set_option (current_adc_task (run evs s))
   \<and> current_adc_task (start_task b s) = Some b
   \<and> (a \<noteq> b \<and> Start a \<notin> set evs \<longrightarrow>
        current_adc_task (run evs (start_task b s)) \<noteq> Some a
      \<and> count_list (serviced (trace (run evs (start_task b s)))) a = count_list (serviced (trace s)) a)"
proof -
  have one: "length (serviced (trace (step Tick (run evs s)))) \<le> Suc (length (serviced (trace (run evs s))))"
    using tick_serviced [of "run evs s"] by (elim disjE exE conjE) simp_all
  have who: "set (serviced (trace (step Tick (run evs s)))) \<subseteq>
       set (serviced (trace (run evs s))) \<union> set_option (current_adc_task (run evs s))"
    using tick_serviced [of "run evs s"] by (elim disjE exE conjE) simp_all
  have inst: "current_adc_task (start_task b s) = Some b"
    by (simp add: start_task_fields)
  have disp: "current_adc_task (run evs (start_task b s)) \<noteq> Some a
      \<and> count_list (serviced (trace (run evs (start_task b s)))) a = count_list (serviced (trace s)) a"
    if "a \<noteq> b" and "Start a \<notin> set evs"
  proof -
    from that(1) have "current_adc_task (start_task b s) \<noteq> Some a"
      by (simp add: start_task_fields)
    from run_keeps_displaced [OF this that(2)] show ?thesis
      by (simp add: start_task_fields)
  qed
  from one who inst disp show ?thesis by blast
qed

text \<open>In the example, task 1 was serviced once before task 2 is started; the two ticks
  that follow go to task 2.\<close>

theorem one_active_task_witness:
  "(1::nat) \<noteq> 2 \<and> Start 1 \<notin> set demo_events
   \<and> current_adc_task demo_state = Some 1
   \<and> current_adc_task (start_task 2 demo_state) = Some 2
   \<and> current_adc_task (run demo_events (start_task 2 demo_state)) \<noteq> Some 1
   \<and> count_list (serviced (trace (run demo_events (start_task 2 demo_state)))) 1 = 1
   \<and> serviced (trace (run demo_events (start_task 2 demo_state))) = [1, 2, 2]"
proof -
  have h: "(1::nat) \<noteq> 2 \<and> Start 1 \<notin> set demo_events"
    by (simp add: demo_events_def)
  have active: "current_adc_task demo_state = Some 1"
    by code_simp
  have before: "count_list (serviced (trace demo_state)) 1 = 1"
    by code_simp
  have after: "serviced (trace (run demo_events (start_task 2 demo_state))) = [1, 2, 2]"
    by code_simp
  from one_active_task [of demo_events demo_state 2 1] h active before after show ?thesis
    by simp
qed

text \<open>
  C2. After \<open>start_task\<close> the countdown is the settle count of 4. When the samples
  \<open>xs\<close> are then delivered to the task's \<open>service\<close> one after the other, the first
  four add nothing to the log and every later one is passed to the task's filter, once
  and in order; the countdown after them is 4 less the number delivered, stopping at 0.
  One call of \<open>service\<close> with the countdown not yet 0 lowers it by one and forwards
  nothing; with the countdown at 0 it leaves it there and forwards the sample to the
  filter the task has.
\<close>

theorem settle_discard:
  "unat k_adc_ignore_count = 4
   \<and> ignore_count' (tasks (start_task t s) t) = k_adc_ignore_count
   \<and> trace (deliver t xs (start_task t s)) =
       trace (start_task t s) @
         (case filter' (tasks s t) of
            Some f \<Rightarrow> map (FilterSample f) (drop 4 xs)
          | None \<Rightarrow> [])
   \<and> unat (ignore_count' (tasks (deliver t xs (start_task t s)) t)) = 4 - length xs
   \<and> (ignore_count' (tasks s t) \<noteq> 0 \<longrightarrow>
        trace (service t x s) = trace s
      \<and> ignore_count' (tasks (service t x s) t) = ignore_count' (tasks s t) - 1)
   \<and> (ignore_count' (tasks s t) = 0 \<longrightarrow>
        ignore_count' (tasks (service t x s) t) = 0
      \<and> trace (service t x s) =
          trace s @ (case filter' (tasks s t) of Some f \<Rightarrow> [FilterSample f x] | None \<Rightarrow> []))"
proof -
  have four: "unat k_adc_ignore_count = 4"
    by (simp add: k_adc_ignore_count_def)
  have armed: "ignore_count' (tasks (start_task t s) t) = k_adc_ignore_count"
    and same_filter: "filter' (tasks (start_task t s) t) = filter' (tasks s t)"
    by (simp_all add: start_task_fields)
  from deliver_trace [of t xs "start_task t s"] four armed same_filter
  have forwarded: "trace (deliver t xs (start_task t s)) =
       trace (start_task t s) @
         (case filter' (tasks s t) of
            Some f \<Rightarrow> map (FilterSample f) (drop 4 xs)
          | None \<Rightarrow> [])"
    by (simp split: option.split)
  from deliver_countdown [of t xs "start_task t s"] four armed
  have left: "unat (ignore_count' (tasks (deliver t xs (start_task t s)) t)) = 4 - length xs"
    by simp
  have counting: "trace (service t x s) = trace s
      \<and> ignore_count' (tasks (service t x s) t) = ignore_count' (tasks s t) - 1"
    if "ignore_count' (tasks s t) \<noteq> 0"
    using that by (simp add: service_trace_eq service_trace_def service_tasks)
  have settled: "ignore_count' (tasks (service t x s) t) = 0
      \<and> trace (service t x s) =
          trace s @ (case filter' (tasks s t) of Some f \<Rightarrow> [FilterSample f x] | None \<Rightarrow> [])"
    if "ignore_count' (tasks s t) = 0"
    using that by (simp add: service_trace_eq service_trace_def service_tasks)
  from four armed forwarded left counting settled show ?thesis
    by blast
qed

text \<open>Task 1 (filter 7) is started at power-on and given six samples: the fifth and the
  sixth reach the filter.\<close>

theorem settle_discard_witness:
  "ignore_count' (tasks (start_task 1 (power_on demo_tasks)) 1) \<noteq> 0
   \<and> trace (service 1 10 (start_task 1 (power_on demo_tasks))) = [AdcTrigger, AdcTrigger]
   \<and> ignore_count' (tasks (service 1 10 (start_task 1 (power_on demo_tasks))) 1) = 3
   \<and> ignore_count' (tasks (power_on demo_tasks) 1) = 0
   \<and> trace (service 1 10 (power_on demo_tasks)) = [FilterSample 7 10]
   \<and> trace (deliver 1 [10, 11, 12, 13, 14, 15] (start_task 1 (power_on demo_tasks)))
       = [AdcTrigger, AdcTrigger, FilterSample 7 14, FilterSample 7 15]
   \<and> unat (ignore_count' (tasks (deliver 1 [10, 11, 12] (start_task 1 (power_on demo_tasks))) 1)) = 1"
proof -
  have armed: "ignore_count' (tasks (start_task 1 (power_on demo_tasks)) 1) = 4"
    by code_simp
  have zero: "ignore_count' (tasks (power_on demo_tasks) 1) = 0"
    by code_simp
  have filt: "filter' (tasks (power_on demo_tasks) 1) = Some 7"
    by code_simp
  have log: "trace (start_task 1 (power_on demo_tasks)) = [AdcTrigger, AdcTrigger]"
    and empty: "trace (power_on demo_tasks) = []"
    by code_simp+
  from settle_discard [of 1 "start_task 1 (power_on demo_tasks)" "[]" 10]
    settle_discard [of 1 "power_on demo_tasks" "[10, 11, 12, 13, 14, 15]" 10]
    settle_discard [of 1 "power_on demo_tasks" "[10, 11, 12]" 10]
    armed zero filt log empty
  show ?thesis by (simp add: k_adc_ignore_count_def)
qed

text \<open>
  C3. A tick that finds the conversion finished adds to the log, in this order: the read
  of the sample register; the write of the multiplexer register, present exactly when
  the requested channel differs from the current one; the start of the next conversion;
  and, when a task is registered, the call of its \<open>service\<close> with the sample that was
  read on entry (followed by what \<open>service\<close> itself logs). The sample handed on is
  the content the result register had before the multiplexer was written, and the tick
  does not change that register. After the tick the current channel is the requested
  one and a conversion is in flight. No other step changes the
  current channel: whenever a step changes it, the step is a tick taken with interrupts
  enabled that found the conversion finished and the two channels different.

  The same holds of the multiplexer register itself: a step that changes it is such a
  tick, so a channel requested by \<open>start_task\<close> reaches the converter at no other
  moment. The conversion the tick starts runs under the register content the tick
  leaves, and the tick does not touch what the sample it read was converted under; that
  changes only when a conversion finishes. Along every run from power-on a conversion
  in flight was started under the register content of the moment, and the sample that
  a tick hands to the registered task was converted under the register content held on
  entry to the tick, before the tick's switch.
\<close>

theorem tick_order:
  "(analog_ready s \<longrightarrow>
      trace (TIMER1_COMPA_vect s) =
        trace s @ [AdcRead (ADCH s)]
          @ (if next_adc_pin s \<noteq> current_adc_pin s
             then [MuxWrite (push_bit 6 1 OR push_bit 5 1 OR (next_adc_pin s AND 7))] else [])
          @ [AdcTrigger]
          @ (case current_adc_task s of
               Some t \<Rightarrow> Service t (ADCH s) # service_trace (tasks s t) (ADCH s)
             | None \<Rightarrow> [])
    \<and> current_adc_pin (TIMER1_COMPA_vect s) = next_adc_pin s
    \<and> next_adc_pin (TIMER1_COMPA_vect s) = next_adc_pin s
    \<and> ADMUX (TIMER1_COMPA_vect s) =
        (if next_adc_pin s \<noteq> current_adc_pin s
         then push_bit 6 1 OR push_bit 5 1 OR (next_adc_pin s AND 7) else ADMUX s)
    \<and> \<not> analog_ready (TIMER1_COMPA_vect s))
   \<and> ADCH (TIMER1_COMPA_vect s) = ADCH s
   \<and> (current_adc_pin (step e s) \<noteq> current_adc_pin s \<longrightarrow>
        e = Tick \<and> SREG_I s \<and> analog_ready s \<and> next_adc_pin s \<noteq> current_adc_pin s
      \<and> current_adc_pin (step e s) = next_adc_pin s)
   \<and> current_adc_pin (service u x s) = current_adc_pin s
   \<and> (ADMUX (step e s) \<noteq> ADMUX s \<longrightarrow>
        e = Tick \<and> SREG_I s \<and> analog_ready s \<and> next_adc_pin s \<noteq> current_adc_pin s
      \<and> ADMUX (step e s) = push_bit 6 1 OR push_bit 5 1 OR (next_adc_pin s AND 7))
   \<and> (analog_ready s \<longrightarrow>
        conv_mux (TIMER1_COMPA_vect s) = Some (ADMUX (TIMER1_COMPA_vect s)))
   \<and> sample_mux (TIMER1_COMPA_vect s) = sample_mux s
   \<and> (sample_mux (step e s) \<noteq> sample_mux s \<longrightarrow> (\<exists>v. e = Done v))
   \<and> (\<not> analog_ready (run evs (power_on tk)) \<longrightarrow>
        conv_mux (run evs (power_on tk)) = Some (ADMUX (run evs (power_on tk))))
   \<and> (analog_ready (run evs (power_on tk)) \<and> current_adc_task (run evs (power_on tk)) = Some t \<longrightarrow>
        sample_mux (run evs (power_on tk)) = Some (ADMUX (run evs (power_on tk))))"
proof -
  have ready: "trace (TIMER1_COMPA_vect s) =
        trace s @ [AdcRead (ADCH s)]
          @ (if next_adc_pin s \<noteq> current_adc_pin s
             then [MuxWrite (push_bit 6 1 OR push_bit 5 1 OR (next_adc_pin s AND 7))] else [])
          @ [AdcTrigger]
          @ (case current_adc_task s of
               Some t \<Rightarrow> Service t (ADCH s) # service_trace (tasks s t) (ADCH s)
             | None \<Rightarrow> [])
    \<and> current_adc_pin (TIMER1_COMPA_vect s) = next_adc_pin s
    \<and> next_adc_pin (TIMER1_COMPA_vect s) = next_adc_pin s
    \<and> ADMUX (TIMER1_COMPA_vect s) =
        (if next_adc_pin s \<noteq> current_adc_pin s
         then push_bit 6 1 OR push_bit 5 1 OR (next_adc_pin s AND 7) else ADMUX s)
    \<and> \<not> analog_ready (TIMER1_COMPA_vect s)"
    if "analog_ready s"
    using that isr_trace [OF that] isr_current_adc_pin [OF that] isr_ADMUX [OF that]
      isr_busy [OF that]
    by (simp only: isr_next_adc_pin simp_thms)
  have only: "e = Tick \<and> SREG_I s \<and> analog_ready s \<and> next_adc_pin s \<noteq> current_adc_pin s
      \<and> current_adc_pin (step e s) = next_adc_pin s"
    if changed: "current_adc_pin (step e s) \<noteq> current_adc_pin s"
  proof (cases e)
    case (Start t)
    with changed show ?thesis by (simp add: start_task_fields)
  next
    case (Stop t)
    with changed show ?thesis by (simp add: stop_task_fields)
  next
    case Tick
    with changed have irq: "SREG_I s"
      by (cases "SREG_I s") simp_all
    with changed Tick have rdy: "analog_ready s"
      by (cases "analog_ready s") (simp_all add: isr_unready)
    from irq rdy Tick changed show ?thesis
      by (auto simp: isr_current_adc_pin)
  next
    case (Done v)
    with changed show ?thesis by (simp add: conversion_done_fields)
  qed
  have svc: "current_adc_pin (service u x s) = current_adc_pin s"
    by (simp add: service_fields)
  have reg: "ADCH (TIMER1_COMPA_vect s) = ADCH s"
    by (rule isr_ADCH)
  have mux_only: "e = Tick \<and> SREG_I s \<and> analog_ready s \<and> next_adc_pin s \<noteq> current_adc_pin s
      \<and> ADMUX (step e s) = push_bit 6 1 OR push_bit 5 1 OR (next_adc_pin s AND 7)"
    if "ADMUX (step e s) \<noteq> ADMUX s"
    using that by (rule step_ADMUX_frame)
  have started: "conv_mux (TIMER1_COMPA_vect s) = Some (ADMUX (TIMER1_COMPA_vect s))"
    if "analog_ready s"
    using that by (rule isr_conv_mux)
  have kept: "sample_mux (TIMER1_COMPA_vect s) = sample_mux s"
    by (rule isr_sample_mux)
  have latched: "\<exists>v. e = Done v" if "sample_mux (step e s) \<noteq> sample_mux s"
    using that by (rule step_sample_mux_frame)
  have inv: "converter_in_step (run evs (power_on tk))"
    by (rule run_converter_in_step [OF power_on_converter_in_step])
  have flight: "conv_mux (run evs (power_on tk)) = Some (ADMUX (run evs (power_on tk)))"
    if "\<not> analog_ready (run evs (power_on tk))"
    using that inv by (simp add: converter_in_step_def analog_ready_def)
  have under: "sample_mux (run evs (power_on tk)) = Some (ADMUX (run evs (power_on tk)))"
    if "analog_ready (run evs (power_on tk)) \<and> current_adc_task (run evs (power_on tk)) = Some t"
    using that inv by (simp add: converter_in_step_def analog_ready_def)
  from ready reg only svc mux_only started kept latched flight under show ?thesis
    by blast
qed

text \<open>Task 2 (pin 2) is started while the converter is on pin 1; the conversion in
  flight finishes with 9 and the timer fires. The sample 9 goes to task 2 although it
  was converted under the register content 97 of pin 1; the tick writes 98, and the
  conversion it starts runs under 98.\<close>

theorem tick_order_witness:
  "analog_ready (run [Start 2, Done 9] demo_state)
   \<and> current_adc_pin (run [Start 2, Done 9] demo_state) = 1
   \<and> next_adc_pin (run [Start 2, Done 9] demo_state) = 2
   \<and> trace (TIMER1_COMPA_vect (run [Start 2, Done 9] demo_state)) =
       trace (run [Start 2, Done 9] demo_state) @ [AdcRead 9, MuxWrite 98, AdcTrigger, Service 2 9]
   \<and> current_adc_pin (step Tick (run [Start 2, Done 9] demo_state))
       \<noteq> current_adc_pin (run [Start 2, Done 9] demo_state)
   \<and> current_adc_pin (step Tick (run [Start 2, Done 9] demo_state)) = 2
   \<and> ADMUX (TIMER1_COMPA_vect (run [Start 2, Done 9] demo_state)) = 98
   \<and> ADMUX (run [Start 2, Done 9] demo_state) = 97
   \<and> ADMUX (step Tick (run [Start 2, Done 9] demo_state)) \<noteq> ADMUX (run [Start 2, Done 9] demo_state)
   \<and> conv_mux (TIMER1_COMPA_vect (run [Start 2, Done 9] demo_state)) = Some 98
   \<and> run [Start 2, Done 9] demo_state
       = run [Start 1, Done 5, Tick, Start 2, Done 9] (power_on demo_tasks)
   \<and> current_adc_task (run [Start 1, Done 5, Tick, Start 2, Done 9] (power_on demo_tasks)) = Some 2
   \<and> sample_mux (run [Start 1, Done 5, Tick, Start 2, Done 9] (power_on demo_tasks)) = Some 97
   \<and> \<not> analog_ready (run [Start 1, Done 5, Tick, Start 2] (power_on demo_tasks))
   \<and> conv_mux (run [Start 1, Done 5, Tick, Start 2] (power_on demo_tasks)) = Some 97
   \<and> sample_mux (step (Done 9) (run [Start 1, Done 5, Tick, Start 2] (power_on demo_tasks)))
       \<noteq> sample_mux (run [Start 1, Done 5, Tick, Start 2] (power_on demo_tasks))"
proof -
  let ?s = "run [Start 2, Done 9] demo_state"
  let ?r = "run [Start 1, Done 5, Tick, Start 2, Done 9] (power_on demo_tasks)"
  let ?q = "run [Start 1, Done 5, Tick, Start 2] (power_on demo_tasks)"
  have same: "?s = ?r"
    by (simp add: demo_state_def run_def)
  have rdy: "analog_ready ?s" by code_simp
  have cur: "current_adc_pin ?s = 1" by code_simp
  have nxt: "next_adc_pin ?s = 2" by code_simp
  have smp: "ADCH ?s = 9" by code_simp
  have tsk: "current_adc_task ?s = Some 2" by code_simp
  have cnt: "ignore_count' (tasks ?s 2) = 4" by code_simp
  have irq: "SREG_I ?s" by code_simp
  have old: "ADMUX ?s = 97" by code_simp
  have rdy_r: "analog_ready ?r" by code_simp
  have tsk_r: "current_adc_task ?r = Some 2" by code_simp
  have old_r: "ADMUX ?r = 97" by code_simp
  have busy_q: "\<not> analog_ready ?q" by code_simp
  have old_q: "ADMUX ?q = 97" by code_simp
  have was_q: "sample_mux ?q = Some 0" by code_simp
  have new_q: "sample_mux (step (Done 9) ?q) = Some 97" by code_simp
  note at_tick = tick_order [of ?s Tick 2 9 "[Start 1, Done 5, Tick, Start 2, Done 9]" demo_tasks 2]
  from at_tick rdy
  have tr: "trace (TIMER1_COMPA_vect ?s) =
        trace ?s @ [AdcRead (ADCH ?s)]
          @ (if next_adc_pin ?s \<noteq> current_adc_pin ?s
             then [MuxWrite (push_bit 6 1 OR push_bit 5 1 OR (next_adc_pin ?s AND 7))] else [])
          @ [AdcTrigger]
          @ (case current_adc_task ?s of
               Some t \<Rightarrow> Service t (ADCH ?s) # service_trace (tasks ?s t) (ADCH ?s)
             | None \<Rightarrow> [])"
    and pin: "current_adc_pin (TIMER1_COMPA_vect ?s) = next_adc_pin ?s"
    and mux: "ADMUX (TIMER1_COMPA_vect ?s) =
        (if next_adc_pin ?s \<noteq> current_adc_pin ?s
         then push_bit 6 1 OR push_bit 5 1 OR (next_adc_pin ?s AND 7) else ADMUX ?s)"
    and conv: "conv_mux (TIMER1_COMPA_vect ?s) = Some (ADMUX (TIMER1_COMPA_vect ?s))"
    by blast+
  from at_tick rdy_r tsk_r
  have under: "sample_mux ?r = Some (ADMUX ?r)"
    by blast
  from tick_order [of ?s Tick 2 9 "[Start 1, Done 5, Tick, Start 2]" demo_tasks 2] busy_q
  have flight: "conv_mux ?q = Some (ADMUX ?q)"
    by blast
  from tr have log: "trace (TIMER1_COMPA_vect ?s) =
      trace ?s @ [AdcRead 9, MuxWrite 98, AdcTrigger, Service 2 9]"
    unfolding cur nxt smp tsk by (simp add: service_trace_def cnt)
  from irq have tick: "step Tick ?s = TIMER1_COMPA_vect ?s"
    by simp
  have moved: "current_adc_pin (step Tick ?s) \<noteq> current_adc_pin ?s"
    unfolding tick pin nxt cur by simp
  have now: "current_adc_pin (step Tick ?s) = 2"
    unfolding tick pin nxt by (rule refl)
  from mux have reg: "ADMUX (TIMER1_COMPA_vect ?s) = 98"
    unfolding cur nxt by simp
  have switched: "ADMUX (step Tick ?s) \<noteq> ADMUX ?s"
    unfolding tick reg old by simp
  from conv have conv': "conv_mux (TIMER1_COMPA_vect ?s) = Some 98"
    unfolding reg .
  from under have under': "sample_mux ?r = Some 97"
    unfolding old_r .
  from flight have flight': "conv_mux ?q = Some 97"
    unfolding old_q .
  have latched: "sample_mux (step (Done 9) ?q) \<noteq> sample_mux ?q"
    unfolding was_q new_q by simp
  from rdy cur nxt log moved now reg old switched conv' same tsk_r under' busy_q flight' latched
  show ?thesis
    by blast
qed

text \<open>
  C4. \<open>stop_task\<close> clears the registration exactly when the stopping task holds it.
  A task that another activation has displaced changes nothing at all: the newer task
  stays registered and the whole state is the one before the call. In either case the
  channels, the initialisation flag, the task objects and the log are untouched.
\<close>

theorem stop_task_only_by_holder:
  "(current_adc_task s = Some t \<longrightarrow> current_adc_task (stop_task t s) = None)
   \<and> (current_adc_task s \<noteq> Some t \<longrightarrow> stop_task t s = s)
   \<and> ((current_adc_task (stop_task t s) \<noteq> current_adc_task s) = (current_adc_task s = Some t))
   \<and> (current_adc_task s = Some u \<and> u \<noteq> t \<longrightarrow> current_adc_task (stop_task t s) = Some u)
   \<and> current_adc_pin (stop_task t s) = current_adc_pin s
   \<and> next_adc_pin (stop_task t s) = next_adc_pin s
   \<and> adc_tasks_initialised (stop_task t s) = adc_tasks_initialised s
   \<and> tasks (stop_task t s) = tasks s
   \<and> trace (stop_task t s) = trace s"
proof -
  have noop: "stop_task t s = s" if "current_adc_task s \<noteq> Some t"
    using that by (simp add: stop_task_def)
  have clears: "current_adc_task (stop_task t s) = None" if "current_adc_task s = Some t"
    using that by (simp add: stop_task_fields)
  have changed: "(current_adc_task (stop_task t s) \<noteq> current_adc_task s) = (current_adc_task s = Some t)"
    by (cases "current_adc_task s = Some t") (simp_all add: stop_task_fields)
  have newer: "current_adc_task (stop_task t s) = Some u" if "current_adc_task s = Some u" "u \<noteq> t"
    using that by (simp add: stop_task_fields)
  from noop clears changed newer show ?thesis
    by (simp add: stop_task_fields)
qed

text \<open>Task 1 was displaced by task 2: its stop changes nothing, the stop of task 2
  clears the registration.\<close>

theorem stop_task_only_by_holder_witness:
  "current_adc_task (start_task 2 demo_state) = Some 2
   \<and> current_adc_task (start_task 2 demo_state) \<noteq> Some 1
   \<and> stop_task 1 (start_task 2 demo_state) = start_task 2 demo_state
   \<and> current_adc_task (stop_task 1 (start_task 2 demo_state)) = Some 2
   \<and> current_adc_task (stop_task 2 (start_task 2 demo_state)) = None"
proof -
  have holder: "current_adc_task (start_task 2 demo_state) = Some 2"
    by code_simp
  from holder stop_task_only_by_holder [of "start_task 2 demo_state" 1 2]
    stop_task_only_by_holder [of "start_task 2 demo_state" 2 2]
  show ?thesis by simp
qed

text \<open>
  C5. Stopping the same task twice in a row: the state after the second call is the
  state after the first, in every field (the active task, both channels and the
  initialisation flag among them).
\<close>

theorem stop_task_idempotent:
  "stop_task t (stop_task t s) = stop_task t s
   \<and> current_adc_task (stop_task t (stop_task t s)) = current_adc_task (stop_task t s)
   \<and> current_adc_pin (stop_task t (stop_task t s)) = current_adc_pin (stop_task t s)
   \<and> next_adc_pin (stop_task t (stop_task t s)) = next_adc_pin (stop_task t s)
   \<and> adc_tasks_initialised (stop_task t (stop_task t s)) = adc_tasks_initialised (stop_task t s)"
proof -
  have "current_adc_task (stop_task t s) \<noteq> Some t"
    by (simp add: stop_task_fields)
  then have "stop_task t (stop_task t s) = stop_task t s"
    by (simp add: stop_task_def [of t "stop_task t s"])
  then show ?thesis by simp
qed

theorem stop_task_idempotent_witness:
  "current_adc_task demo_state = Some 1
   \<and> current_adc_task (stop_task 1 demo_state) = None
   \<and> stop_task 1 (stop_task 1 demo_state) = stop_task 1 demo_state"
proof -
  have "current_adc_task demo_state = Some 1"
    by code_simp
  moreover have "current_adc_task (stop_task 1 demo_state) = None"
    by code_simp
  ultimately show ?thesis
    using stop_task_idempotent [of 1 demo_state] by simp
qed

text \<open>
  C6. A tick that finds the conversion still running does nothing: the interrupt
  routine returns the state it was given, so no sample is read, no channel changes, no
  conversion is started and no task is serviced (the log is the same).
\<close>

theorem unready_tick_does_nothing:
  "\<not> analog_ready s \<Longrightarrow>
     TIMER1_COMPA_vect s = s \<and> step Tick s = s
   \<and> trace (step Tick s) = trace s
   \<and> current_adc_pin (step Tick s) = current_adc_pin s
   \<and> next_adc_pin (step Tick s) = next_adc_pin s
   \<and> ADCSRA (step Tick s) = ADCSRA s
   \<and> tasks (step Tick s) = tasks s"
  by (simp add: isr_unready)

text \<open>Right after a task is started the conversion is in flight.\<close>

theorem unready_tick_does_nothing_witness:
  "\<not> analog_ready (start_task 1 (power_on demo_tasks))
   \<and> TIMER1_COMPA_vect (start_task 1 (power_on demo_tasks)) = start_task 1 (power_on demo_tasks)
   \<and> trace (step Tick (start_task 1 (power_on demo_tasks))) = [AdcTrigger, AdcTrigger]"
proof -
  have busy: "\<not> analog_ready (start_task 1 (power_on demo_tasks))"
    by code_simp
  have log: "trace (start_task 1 (power_on demo_tasks)) = [AdcTrigger, AdcTrigger]"
    by code_simp
  from unready_tick_does_nothing [OF busy] busy log show ?thesis
    by simp
qed

text \<open>
  C7. In every state other than idle, \<open>start_sample\<close> returns false and leaves the wind
  meter, the pulse counter and the clock as they were: the pulse count, the window
  start, the callback and the state of the sample in progress are not touched. From
  idle it returns true, records the callback and the context, resets the pulse counter,
  records the time as the window start and moves to the speed-counting state; the rest
  of the meter is unchanged.
\<close>

theorem start_sample_busy_rejected:
  "(state' (meter w) \<noteq> idle \<longrightarrow>
      start_sample fn ctx w = (False, w)
    \<and> \<not> fst (start_sample fn ctx w)
    \<and> pulse_counter (snd (start_sample fn ctx w)) = pulse_counter w
    \<and> sample_start_time' (meter (snd (start_sample fn ctx w))) = sample_start_time' (meter w)
    \<and> sample_fn' (meter (snd (start_sample fn ctx w))) = sample_fn' (meter w)
    \<and> context' (meter (snd (start_sample fn ctx w))) = context' (meter w)
    \<and> state' (meter (snd (start_sample fn ctx w))) = state' (meter w))
   \<and> (state' (meter w) = idle \<longrightarrow>
        fst (start_sample fn ctx w)
      \<and> sample_fn' (meter (snd (start_sample fn ctx w))) = fn
      \<and> context' (meter (snd (start_sample fn ctx w))) = ctx
      \<and> pulse_counter (snd (start_sample fn ctx w)) = 0
      \<and> sample_start_time' (meter (snd (start_sample fn ctx w))) = millis w
      \<and> state' (meter (snd (start_sample fn ctx w))) = sampling_speed
      \<and> millis (snd (start_sample fn ctx w)) = millis w
      \<and> sample_period' (meter (snd (start_sample fn ctx w))) = sample_period' (meter w)
      \<and> sample_pulse_count' (meter (snd (start_sample fn ctx w))) = sample_pulse_count' (meter w)
      \<and> sample_direction' (meter (snd (start_sample fn ctx w))) = sample_direction' (meter w)
      \<and> initialised' (meter (snd (start_sample fn ctx w))) = initialised' (meter w))"
proof (cases "state' (meter w) = idle")
  case True
  then show ?thesis by (simp add: start_sample_def)
next
  case False
  then show ?thesis by (simp add: start_sample_def)
qed

text \<open>A request in the middle of the speed window is refused and the three pulses
  counted so far stay; the same meter, idle, accepts it.\<close>

theorem start_sample_busy_rejected_witness:
  "state' (meter busy_world) \<noteq> idle
   \<and> start_sample (Some 5) None busy_world = (False, busy_world)
   \<and> pulse_counter (snd (start_sample (Some 5) None busy_world)) = 3
   \<and> state' (meter idle_world) = idle
   \<and> fst (start_sample (Some 5) None idle_world)
   \<and> pulse_counter (snd (start_sample (Some 5) None idle_world)) = 0
   \<and> sample_start_time' (meter (snd (start_sample (Some 5) None idle_world))) = 2000
   \<and> state' (meter (snd (start_sample (Some 5) None idle_world))) = sampling_speed"
proof -
  have busy: "state' (meter busy_world) \<noteq> idle"
    and count: "pulse_counter busy_world = 3"
    by (simp_all add: busy_world_def)
  have free: "state' (meter idle_world) = idle"
    and now: "millis idle_world = 2000"
    by (simp_all add: idle_world_def busy_world_def)
  from start_sample_busy_rejected [of busy_world "Some 5" None] busy count
  have a: "start_sample (Some 5) None busy_world = (False, busy_world)
      \<and> pulse_counter (snd (start_sample (Some 5) None busy_world)) = 3"
    by simp
  from start_sample_busy_rejected [of idle_world "Some 5" None] free now
  have b: "fst (start_sample (Some 5) None idle_world)
      \<and> pulse_counter (snd (start_sample (Some 5) None idle_world)) = 0
      \<and> sample_start_time' (meter (snd (start_sample (Some 5) None idle_world))) = 2000
      \<and> state' (meter (snd (start_sample (Some 5) None idle_world))) = sampling_speed"
    by simp
  from busy free a b show ?thesis by blast
qed

text \<open>
  C8. The two constants named \<open>k_timer_1_frequency\<close> disagree. The one of adctask.cpp is
  31250, which is the clock of 16000000 divided by the prescaler 64 times the compare
  value 7 plus one; the one of adctask.h is 5000, and the advertised sample rate
  \<open>k_adc_sample_rate\<close> is that one.
\<close>

theorem timer_frequencies_disagree:
  "k_timer_1_frequency_cpp = 31250
   \<and> k_timer_1_comapre_to = 7
   \<and> int (unat k_timer_1_frequency_cpp) =
       int (unat k_arduino_frequency) div (int timer_1_prescaler * (k_timer_1_comapre_to + 1))
   \<and> k_timer_1_frequency_h = 5000
   \<and> k_adc_sample_rate = k_timer_1_frequency_h
   \<and> k_timer_1_frequency_cpp \<noteq> k_timer_1_frequency_h
   \<and> k_timer_1_frequency_cpp \<noteq> k_adc_sample_rate"
  by (simp add: k_timer_1_frequency_cpp_def k_timer_1_comapre_to_def k_arduino_frequency_def
      timer_1_prescaler_def k_timer_1_frequency_h_def k_adc_sample_rate_def)

text \<open>
  C9. A task whose filter pointer is null never reaches the filter call: \<open>service\<close>
  adds nothing to the log, and once the countdown is 0 it returns the state unchanged.
  The pointer stays null through every run of the system, and through any number of
  delivered samples. Conversely, whenever \<open>service\<close> does add to the log, the task's
  filter pointer is not null and the countdown was 0.
\<close>

theorem null_filter_never_used:
  "(filter' (tasks s t) = None \<longrightarrow>
      trace (service t x s) = trace s
    \<and> (ignore_count' (tasks s t) = 0 \<longrightarrow> service t x s = s)
    \<and> filter' (tasks (run evs s) t) = None
    \<and> trace (deliver t xs s) = trace s)
   \<and> (tasks s t = adctask_new None pin junk \<longrightarrow> trace (service t x s) = trace s)
   \<and> (trace (service t x s) \<noteq> trace s \<longrightarrow>
        filter' (tasks s t) \<noteq> None \<and> ignore_count' (tasks s t) = 0)"
proof -
  have quiet: "trace (service t x s) = trace s" if "filter' (tasks s t) = None"
    using that by (simp add: service_trace_eq service_trace_def)
  have dropped: "service t x s = s" if "filter' (tasks s t) = None" "ignore_count' (tasks s t) = 0"
    using that by (simp add: service_def)
  have stays: "filter' (tasks (run evs s) t) = None" if "filter' (tasks s t) = None"
    using that by (simp add: run_tasks_filter)
  have many: "trace (deliver t xs s) = trace s" if "filter' (tasks s t) = None"
    using that by (simp add: deliver_trace)
  have built: "trace (service t x s) = trace s" if "tasks s t = adctask_new None pin junk"
  proof -
    from that have "filter' (tasks s t) = None" by (simp add: adctask_new_def)
    then show ?thesis by (rule quiet)
  qed
  have only: "filter' (tasks s t) \<noteq> None \<and> ignore_count' (tasks s t) = 0"
    if "trace (service t x s) \<noteq> trace s"
    using that by (auto simp: service_trace_eq service_trace_def split: if_splits option.splits)
  from quiet dropped stays many built only show ?thesis
    by blast
qed

text \<open>Task 2 has no filter, task 1 has filter 7; both have finished their countdown.\<close>

theorem null_filter_never_used_witness:
  "filter' (tasks (power_on demo_tasks) 2) = None
   \<and> ignore_count' (tasks (power_on demo_tasks) 2) = 0
   \<and> tasks (power_on demo_tasks) 2 = adctask_new None 2 0
   \<and> service 2 9 (power_on demo_tasks) = power_on demo_tasks
   \<and> trace (deliver 2 [1, 2, 3] (power_on demo_tasks)) = []
   \<and> filter' (tasks (run demo_events (power_on demo_tasks)) 2) = None
   \<and> trace (service 1 9 (power_on demo_tasks)) \<noteq> trace (power_on demo_tasks)
   \<and> filter' (tasks (power_on demo_tasks) 1) \<noteq> None"
proof -
  have null: "filter' (tasks (power_on demo_tasks) 2) = None"
    and zero: "ignore_count' (tasks (power_on demo_tasks) 2) = 0"
    and empty: "trace (power_on demo_tasks) = []"
    by code_simp+
  have built: "tasks (power_on demo_tasks) 2 = adctask_new None 2 0"
    by (simp add: power_on_def demo_tasks_def)
  have used: "trace (service 1 9 (power_on demo_tasks)) \<noteq> trace (power_on demo_tasks)"
    by code_simp
  from null_filter_never_used [of "power_on demo_tasks" 2 9 demo_events "[1, 2, 3]" 2 0]
    null_filter_never_used [of "power_on demo_tasks" 1 9 "[]" "[]" 2 0]
    null zero empty built used
  show ?thesis by simp
qed

text \<open>
  C10, as the code has it. Whenever the tick writes the multiplexer register, that is at
  a tick that finds the conversion finished and the requested pin different from the
  recorded current one, the value written is the requested pin's low three bits with
  bit 6 (the reference voltage) and bit 5 (left alignment) set and bits 7, 4 and 3
  clear; the recorded current pin becomes the requested one. At any other tick the
  register is not written. So the register holds the configuration of the recorded pin
  from the first write on, through every step; and a task started with any pin, followed
  by the end of the conversion and a tick, leaves the register at that pin modulo 8
  with both bits set, provided its pin differs from the recorded current pin or the
  register was already in step with it.
\<close>

theorem mux_write_masks_pin:
  "(analog_ready s \<and> next_adc_pin s \<noteq> current_adc_pin s \<longrightarrow>
      ADMUX (TIMER1_COMPA_vect s) = push_bit 6 1 OR push_bit 5 1 OR (next_adc_pin s AND 7)
    \<and> unat (ADMUX (TIMER1_COMPA_vect s) AND 7) = unat (next_adc_pin s) mod 8
    \<and> bit (ADMUX (TIMER1_COMPA_vect s)) 6 \<and> bit (ADMUX (TIMER1_COMPA_vect s)) 5
    \<and> \<not> bit (ADMUX (TIMER1_COMPA_vect s)) 7 \<and> \<not> bit (ADMUX (TIMER1_COMPA_vect s)) 4
    \<and> \<not> bit (ADMUX (TIMER1_COMPA_vect s)) 3
    \<and> current_adc_pin (TIMER1_COMPA_vect s) = next_adc_pin s)
   \<and> (\<not> analog_ready s \<or> next_adc_pin s = current_adc_pin s \<longrightarrow>
        ADMUX (TIMER1_COMPA_vect s) = ADMUX s)
   \<and> (mux_in_step s \<longrightarrow> mux_in_step (step e s))
   \<and> (adc_pin' (tasks s t) \<noteq> current_adc_pin s \<or> mux_in_step s \<longrightarrow>
        ADMUX (run [Start t, Done v, Tick] s) =
          push_bit 6 1 OR push_bit 5 1 OR (adc_pin' (tasks s t) AND 7)
      \<and> unat (ADMUX (run [Start t, Done v, Tick] s) AND 7) = unat (adc_pin' (tasks s t)) mod 8
      \<and> mux_in_step (run [Start t, Done v, Tick] s))"
proof -
  have written: "ADMUX (TIMER1_COMPA_vect s) = push_bit 6 1 OR push_bit 5 1 OR (next_adc_pin s AND 7)
    \<and> unat (ADMUX (TIMER1_COMPA_vect s) AND 7) = unat (next_adc_pin s) mod 8
    \<and> bit (ADMUX (TIMER1_COMPA_vect s)) 6 \<and> bit (ADMUX (TIMER1_COMPA_vect s)) 5
    \<and> \<not> bit (ADMUX (TIMER1_COMPA_vect s)) 7 \<and> \<not> bit (ADMUX (TIMER1_COMPA_vect s)) 4
    \<and> \<not> bit (ADMUX (TIMER1_COMPA_vect s)) 3
    \<and> current_adc_pin (TIMER1_COMPA_vect s) = next_adc_pin s"
    if "analog_ready s" "next_adc_pin s \<noteq> current_adc_pin s"
  proof -
    from that have v: "ADMUX (TIMER1_COMPA_vect s)
        = push_bit 6 1 OR push_bit 5 1 OR (next_adc_pin s AND 7)"
      by (simp add: isr_ADMUX)
    from that(1) have c: "current_adc_pin (TIMER1_COMPA_vect s) = next_adc_pin s"
      by (rule isr_current_adc_pin)
    from v c show ?thesis
      by (simp only: mux_value_low_bits mux_value_bits) simp
  qed
  have kept: "ADMUX (TIMER1_COMPA_vect s) = ADMUX s"
    if "\<not> analog_ready s \<or> next_adc_pin s = current_adc_pin s"
  proof (cases "analog_ready s")
    case True
    with that show ?thesis by (simp add: isr_ADMUX)
  next
    case False
    then show ?thesis by (simp add: isr_unready)
  qed
  have inv: "mux_in_step (step e s)" if "mux_in_step s"
    using that by (rule step_mux_in_step)
  have first: "ADMUX (run [Start t, Done v, Tick] s) =
          push_bit 6 1 OR push_bit 5 1 OR (adc_pin' (tasks s t) AND 7)
      \<and> unat (ADMUX (run [Start t, Done v, Tick] s) AND 7) = unat (adc_pin' (tasks s t)) mod 8
      \<and> mux_in_step (run [Start t, Done v, Tick] s)"
    if pre: "adc_pin' (tasks s t) \<noteq> current_adc_pin s \<or> mux_in_step s"
  proof -
    let ?s1 = "conversion_done v (start_task t s)"
    have rdy: "analog_ready ?s1"
      by (rule conversion_done_ready)
    have nxt: "next_adc_pin ?s1 = adc_pin' (tasks s t)"
      and cur: "current_adc_pin ?s1 = current_adc_pin s"
      and mux: "ADMUX ?s1 = ADMUX s"
      by (simp_all add: conversion_done_fields start_task_fields)
    from pre nxt cur mux have pre1: "next_adc_pin ?s1 \<noteq> current_adc_pin ?s1 \<or> mux_in_step ?s1"
      by (simp add: mux_in_step_def)
    from isr_mux_in_step [OF rdy pre1] have step: "mux_in_step (TIMER1_COMPA_vect ?s1)" .
    then have "ADMUX (TIMER1_COMPA_vect ?s1) =
        push_bit 6 1 OR push_bit 5 1 OR (adc_pin' (tasks s t) AND 7)"
      using rdy nxt by (simp add: mux_in_step_def isr_current_adc_pin)
    with step show ?thesis
      by (simp only: first_tick_state mux_value_low_bits simp_thms)
  qed
  from written kept inv first show ?thesis by blast
qed

text \<open>A task with pin 10 started at power-on: the first tick writes 0x62, channel 2.\<close>

theorem mux_write_masks_pin_witness:
  "adc_pin' (tasks (power_on pin10_tasks) 0) = 10
   \<and> adc_pin' (tasks (power_on pin10_tasks) 0) \<noteq> current_adc_pin (power_on pin10_tasks)
   \<and> ADMUX (run [Start 0, Done 17, Tick] (power_on pin10_tasks)) = 0x62
   \<and> unat (ADMUX (run [Start 0, Done 17, Tick] (power_on pin10_tasks)) AND 7) = 2
   \<and> mux_in_step (run [Start 0, Done 17, Tick] (power_on pin10_tasks))
   \<and> mux_in_step (step (Start 1) (run [Start 0, Done 17, Tick] (power_on pin10_tasks)))
   \<and> analog_ready (run [Start 0, Done 17] (power_on pin10_tasks))
   \<and> next_adc_pin (run [Start 0, Done 17] (power_on pin10_tasks))
       \<noteq> current_adc_pin (run [Start 0, Done 17] (power_on pin10_tasks))
   \<and> bit (ADMUX (TIMER1_COMPA_vect (run [Start 0, Done 17] (power_on pin10_tasks)))) 6
   \<and> \<not> analog_ready (start_task 0 (power_on pin10_tasks))
   \<and> ADMUX (TIMER1_COMPA_vect (start_task 0 (power_on pin10_tasks))) = 0"
proof -
  have pin: "adc_pin' (tasks (power_on pin10_tasks) 0) = 10"
    and cur: "current_adc_pin (power_on pin10_tasks) = 255"
    and rdy: "analog_ready (run [Start 0, Done 17] (power_on pin10_tasks))"
    and nxt1: "next_adc_pin (run [Start 0, Done 17] (power_on pin10_tasks)) = 10"
    and cur1: "current_adc_pin (run [Start 0, Done 17] (power_on pin10_tasks)) = 255"
    and busy: "\<not> analog_ready (start_task 0 (power_on pin10_tasks))"
    and mux0: "ADMUX (start_task 0 (power_on pin10_tasks)) = 0"
    by code_simp+
  have val: "(push_bit 6 1 OR push_bit 5 1 OR (10 AND 7) :: u8) = 0x62"
    and low: "unat (10 :: u8) mod 8 = 2"
    by simp_all
  from mux_write_masks_pin [of "power_on pin10_tasks" "Start 1" 0 17]
    pin cur val low
  have a: "ADMUX (run [Start 0, Done 17, Tick] (power_on pin10_tasks)) = 0x62
      \<and> unat (ADMUX (run [Start 0, Done 17, Tick] (power_on pin10_tasks)) AND 7) = 2
      \<and> mux_in_step (run [Start 0, Done 17, Tick] (power_on pin10_tasks))"
    by simp
  from mux_write_masks_pin [of "run [Start 0, Done 17, Tick] (power_on pin10_tasks)" "Start 1" 0 17] a
  have b: "mux_in_step (step (Start 1) (run [Start 0, Done 17, Tick] (power_on pin10_tasks)))"
    by blast
  from mux_write_masks_pin [of "run [Start 0, Done 17] (power_on pin10_tasks)" "Start 1" 0 17]
    rdy nxt1 cur1
  have c: "bit (ADMUX (TIMER1_COMPA_vect (run [Start 0, Done 17] (power_on pin10_tasks)))) 6"
    by simp
  from mux_write_masks_pin [of "start_task 0 (power_on pin10_tasks)" "Start 1" 0 17] busy mux0
  have d: "ADMUX (TIMER1_COMPA_vect (start_task 0 (power_on pin10_tasks))) = 0"
    by simp
  from pin cur a b c d rdy nxt1 cur1 busy show ?thesis by simp
qed

text \<open>
  C10 as claimed fails for pin 255. \<open>current_adc_pin\<close> starts as 255, so a task with
  that pin started first after power-on never differs from it: the tick services the
  task but writes nothing to the multiplexer register, which stays 0 (channel 0, no
  reference bit, no left alignment) instead of holding channel 255 mod 8 = 7.
\<close>

theorem pin255_never_configured:
  "adc_pin' (tasks (power_on pin255_tasks) 0) = 255
   \<and> trace pin255_state = [AdcTrigger, AdcTrigger, AdcRead 17, AdcTrigger, Service 0 17]
   \<and> ADMUX pin255_state = 0
   \<and> ADMUX pin255_state \<noteq> push_bit 6 1 OR push_bit 5 1 OR (255 AND 7)
   \<and> unat (ADMUX pin255_state AND 7) \<noteq> 255 mod 8
   \<and> \<not> bit (ADMUX pin255_state) 6
   \<and> \<not> bit (ADMUX pin255_state) 5"
proof -
  have "adc_pin' (tasks (power_on pin255_tasks) 0) = 255"
    by code_simp
  moreover have "trace pin255_state = [AdcTrigger, AdcTrigger, AdcRead 17, AdcTrigger, Service 0 17]"
    by code_simp
  moreover have "ADMUX pin255_state = 0"
    by code_simp
  ultimately show ?thesis by simp
qed

end
